theory Spec2Isabelle
  imports Main
begin

section \<open>The regular expression of the decoders\<close>

text \<open>
  Both decoders of \<^verbatim>\<open>scripts/cigar_inspector.py\<close> tokenise their argument with
  \<^verbatim>\<open>re.finditer(r"(\d+)([=XID])", cigar)\<close>. A Python string is modelled as a
  \<^typ>\<open>string\<close> whose characters are the code points below 256; among these the class
  \<^verbatim>\<open>\d\<close> holds exactly the ten ASCII digits.
\<close>

definition is_digit :: "char \<Rightarrow> bool" where
  "is_digit c = (c \<in> set ''0123456789'')"

definition is_edit_symbol :: "char \<Rightarrow> bool" where
  "is_edit_symbol c = (c \<in> set ''=XID'')"

text \<open>A match object, reduced to its two groups: \<^verbatim>\<open>group(1)\<close> and \<^verbatim>\<open>group(2)\<close>.\<close>

type_synonym run = "string \<times> char"

text \<open>
  An attempt to match the pattern at the start of \<open>s\<close>, as the backtracking engine makes it:
  the greedy \<^verbatim>\<open>\d+\<close> first takes every leading digit, and gives them back one at a time
  (down to one digit) until the next character is in the class \<^verbatim>\<open>[=XID]\<close>. The result is
  the match and the text after it.
\<close>

fun backtrack :: "string \<Rightarrow> nat \<Rightarrow> (run \<times> string) option" where
  "backtrack s 0 = None"
| "backtrack s (Suc k) =
     (case drop (Suc k) s of
        [] \<Rightarrow> backtrack s k
      | c # rest \<Rightarrow>
          if is_edit_symbol c then Some ((take (Suc k) s, c), rest) else backtrack s k)"

definition match_at :: "string \<Rightarrow> (run \<times> string) option" where
  "match_at s = backtrack s (length (takeWhile is_digit s))"

text \<open>
  \<^verbatim>\<open>re.finditer\<close>: the leftmost match from the current position, then the search goes on
  after that match; where no match starts, the scan moves one character on. Text between
  the matches is skipped, not reported.
\<close>

function finditer :: "string \<Rightarrow> run list" where
  "finditer [] = []"
| "finditer (c # s) =
     (case match_at (c # s) of
        Some (r, rest) \<Rightarrow> r # finditer rest
      | None \<Rightarrow> finditer s)"
  by pat_completeness auto
termination
proof -
  have shorter: "length rest < length s"
    if "backtrack s k = Some (r, rest)" for s k r rest
    using that
  proof (induction k)
    case 0
    then show ?case by simp
  next
    case (Suc k)
    show ?case
    proof (cases "drop (Suc k) s")
      case Nil
      with Suc show ?thesis by simp
    next
      case (Cons c rest')
      have len: "length (drop (Suc k) s) = Suc (length rest')"
        by (simp add: Cons)
      show ?thesis
      proof (cases "is_edit_symbol c")
        case True
        with Suc.prems Cons have "rest = rest'" by simp
        with len show ?thesis by simp
      next
        case False
        with Suc Cons show ?thesis by simp
      qed
    qed
  qed
  show ?thesis
    by (relation "measure length") (auto simp: match_at_def dest: shorter)
qed


section \<open>Errors and integer conversion\<close>

text \<open>
  The exceptions the modelled code can raise. Both \<^verbatim>\<open>ValueError\<close>s carry what their message
  reports: the unknown edit type, or the number of digits of a numeral that \<^verbatim>\<open>int\<close>
  refuses.
\<close>

datatype value_error = UnknownEditType char | IntStrDigitsLimit nat

datatype error = ValueError value_error | IndexError | ZeroDivisionError

text \<open>
  \<^verbatim>\<open>int(run.group(1))\<close>: the first group is a non-empty string of ASCII digits, and
  \<^verbatim>\<open>int\<close> reads it as a decimal numeral (leading zeros allowed) into an unbounded
  integer. CPython refuses a numeral of more than \<^verbatim>\<open>sys.int_info.default_max_str_digits\<close>
  digits, 4300 unless reconfigured, leading zeros counted, with a \<^verbatim>\<open>ValueError\<close>.
\<close>

definition digit_value :: "char \<Rightarrow> int" where
  "digit_value c = int (of_char c) - 48"

definition int_max_str_digits :: nat where
  "int_max_str_digits = 4300"

definition int_of_digits :: "string \<Rightarrow> error + int" where
  "int_of_digits ds =
     (if int_max_str_digits < length ds then Inl (ValueError (IntStrDigitsLimit (length ds)))
      else Inr (foldl (\<lambda>n c. 10 * n + digit_value c) 0 ds))"

section \<open>The CIGAR decoders\<close>

text \<open>
  Both decoders move the cursor \<open>(i, j)\<close> with the same chain of
  \<^verbatim>\<open>if\<close>/\<^verbatim>\<open>elif\<close>/\<^verbatim>\<open>else\<close>; the last branch is the \<^verbatim>\<open>raise ValueError\<close> of the
  source, whose message names the edit type.
\<close>

definition advance :: "char \<Rightarrow> int \<Rightarrow> int \<Rightarrow> int \<Rightarrow> error + (int \<times> int)" where
  "advance edit_type edit_count i j =
     (if edit_type = CHR ''='' \<or> edit_type = CHR ''X'' then Inr (i + edit_count, j + edit_count)
      else if edit_type = CHR ''I'' then Inr (i + edit_count, j)
      else if edit_type = CHR ''D'' then Inr (i, j + edit_count)
      else Inl (ValueError (UnknownEditType edit_type)))"

text \<open>
  The loop of \<^verbatim>\<open>cigar_to_coords\<close> over the matches, with the cursor and the list
  \<open>res\<close> as explicit state: every run appends the cursor reached. An exception of
  \<^verbatim>\<open>int\<close> or of the chain ends the loop, and nothing is returned.
\<close>

fun coords_loop :: "run list \<Rightarrow> int \<Rightarrow> int \<Rightarrow> (int \<times> int) list \<Rightarrow> error + (int \<times> int) list" where
  "coords_loop [] i j res = Inr res"
| "coords_loop ((g1, g2) # runs) i j res =
     (case int_of_digits g1 of
        Inl e \<Rightarrow> Inl e
      | Inr edit_count \<Rightarrow>
          (let edit_type = g2 in
           case advance edit_type edit_count i j of
             Inl e \<Rightarrow> Inl e
           | Inr (i', j') \<Rightarrow> coords_loop runs i' j' (res @ [(i', j')])))"

definition cigar_to_coords :: "string \<Rightarrow> error + (int \<times> int) list" where
  "cigar_to_coords cigar = coords_loop (finditer cigar) 0 0 [(0, 0)]"

text \<open>
  The loop of \<^verbatim>\<open>cigar_to_match_coords\<close>: the cursor moves in the same way, and only a
  run of type \<^verbatim>\<open>=\<close> appends the pair of the cursor before and after it.
\<close>

type_synonym segment = "(int \<times> int) \<times> (int \<times> int)"

fun match_coords_loop :: "run list \<Rightarrow> int \<Rightarrow> int \<Rightarrow> segment list \<Rightarrow> error + segment list" where
  "match_coords_loop [] i j res = Inr res"
| "match_coords_loop ((g1, g2) # runs) i j res =
     (case int_of_digits g1 of
        Inl e \<Rightarrow> Inl e
      | Inr edit_count \<Rightarrow>
          (let edit_type = g2; before = (i, j) in
           case advance edit_type edit_count i j of
             Inl e \<Rightarrow> Inl e
           | Inr (i', j') \<Rightarrow>
               (let after = (i', j') in
                if edit_type = CHR ''='' then match_coords_loop runs i' j' (res @ [(before, after)])
                else match_coords_loop runs i' j' res)))"

definition cigar_to_match_coords :: "string \<Rightarrow> error + segment list" where
  "cigar_to_match_coords cigar = match_coords_loop (finditer cigar) 0 0 []"

section \<open>The windows of \<^verbatim>\<open>plot_genasm_windows\<close>\<close>

text \<open>
  The first loop of \<^verbatim>\<open>plot_genasm_windows\<close> computes the window anchors. The overlap
  parameter of the source is called \<^verbatim>\<open>O\<close>; it is \<open>O'\<close> here. \<^verbatim>\<open>window_starts[-1]\<close>
  raises IndexError on an empty list, and the comparison reads
  \<^verbatim>\<open>i > (window_starts[-1][0] + W) - O\<close>.
\<close>

fun window_starts_loop :: "(int \<times> int) list \<Rightarrow> int \<Rightarrow> int \<Rightarrow> (int \<times> int) list \<Rightarrow> error + (int \<times> int) list" where
  "window_starts_loop [] W O' window_starts = Inr window_starts"
| "window_starts_loop ((i, j) # alignment_path) W O' window_starts =
     (if window_starts = [] then Inl IndexError
      else if i > fst (last window_starts) + W - O' \<or> j > snd (last window_starts) + W - O' then
        window_starts_loop alignment_path W O' (window_starts @ [(i, j)])
      else window_starts_loop alignment_path W O' window_starts)"

definition window_starts_of :: "(int \<times> int) list \<Rightarrow> int \<Rightarrow> int \<Rightarrow> error + (int \<times> int) list" where
  "window_starts_of alignment_path W O' = window_starts_loop alignment_path W O' [(0, 0)]"

text \<open>
  The second loop draws one closed polygon per anchor. A call
  \<^verbatim>\<open>ax.plot(xs, ys, color=c)\<close> is recorded as the triple \<open>(xs, ys, c)\<close>, in call order;
  \<^verbatim>\<open>i % len(colors)\<close> raises ZeroDivisionError when \<^verbatim>\<open>colors\<close> is empty.
\<close>

definition window_end :: "int \<times> int \<Rightarrow> int \<Rightarrow> string \<Rightarrow> string \<Rightarrow> int \<times> int" where
  "window_end window_start W read reference =
     (min (fst window_start + W) (int (length read)),
      min (snd window_start + W) (int (length reference)))"

definition window_polygon :: "int \<times> int \<Rightarrow> int \<times> int \<Rightarrow> (int \<times> int) list" where
  "window_polygon window_start window_end' =
     [window_start,
      (fst window_start, snd window_end'),
      window_end',
      (fst window_end', snd window_start),
      window_start]"

type_synonym 'c plot_call = "int list \<times> int list \<times> 'c"

fun plot_windows_loop :: "nat \<Rightarrow> (int \<times> int) list \<Rightarrow> string \<Rightarrow> string \<Rightarrow> 'c list \<Rightarrow> int \<Rightarrow> 'c plot_call list \<Rightarrow> error + 'c plot_call list" where
  "plot_windows_loop i [] read reference colors W plotted = Inr plotted"
| "plot_windows_loop i (window_start # rest) read reference colors W plotted =
     (let polygon = window_polygon window_start (window_end window_start W read reference);
          xs = map fst polygon;
          ys = map snd polygon in
      if colors = [] then Inl ZeroDivisionError
      else plot_windows_loop (Suc i) rest read reference colors W
             (plotted @ [(xs, ys, colors ! (i mod length colors))]))"

definition plot_genasm_windows :: "string \<Rightarrow> string \<Rightarrow> string \<Rightarrow> 'c list \<Rightarrow> int \<Rightarrow> int \<Rightarrow> error + 'c plot_call list" where
  "plot_genasm_windows read reference cigar colors W O' =
     (case cigar_to_coords cigar of
        Inl e \<Rightarrow> Inl e
      | Inr alignment_path \<Rightarrow>
          (case window_starts_of alignment_path W O' of
             Inl e \<Rightarrow> Inl e
           | Inr window_starts \<Rightarrow> plot_windows_loop 0 window_starts read reference colors W []))"

section \<open>The vocabulary of the specification\<close>

text \<open>
  A valid CIGAR string is a word of the language \<^verbatim>\<open>(\d+[=XID])*\<close>: the concatenation of
  runs, each a non-empty string of digits followed by one of the four symbols.
\<close>

definition run_ok :: "run \<Rightarrow> bool" where
  "run_ok r = (fst r \<noteq> [] \<and> list_all is_digit (fst r) \<and> is_edit_symbol (snd r))"

definition cigar_of_runs :: "run list \<Rightarrow> string" where
  "cigar_of_runs rs = concat (map (\<lambda>r. fst r @ [snd r]) rs)"

text \<open>The same language, recognised character by character.\<close>

fun grammar_from :: "bool \<Rightarrow> string \<Rightarrow> bool" where
  "grammar_from in_count [] = (\<not> in_count)"
| "grammar_from in_count (c # s) =
     (if is_digit c then grammar_from True s
      else if in_count \<and> is_edit_symbol c then grammar_from False s
      else False)"

definition cigar_grammar :: "string \<Rightarrow> bool" where
  "cigar_grammar s = grammar_from False s"

text \<open>
  The count of a run is the number its digits write in base ten: the digit at position
  \<open>k\<close> of \<open>n\<close> weighs \<open>10 ^ (n - 1 - k)\<close>. A digit is its place in \<^verbatim>\<open>0123456789\<close>.
\<close>

definition digit_of :: "char \<Rightarrow> int" where
  "digit_of c = int (length (takeWhile (\<lambda>d. d \<noteq> c) ''0123456789''))"

definition count_value :: "string \<Rightarrow> int" where
  "count_value ds =
     sum_list (map (\<lambda>k. digit_of (ds ! k) * 10 ^ (length ds - Suc k)) [0..<length ds])"

definition run_count :: "run \<Rightarrow> int" where
  "run_count r = count_value (fst r)"

text \<open>The counts that \<^verbatim>\<open>int\<close> accepts: at most 4300 digits each.\<close>

definition counts_fit :: "run list \<Rightarrow> bool" where
  "counts_fit rs = list_all (\<lambda>r. length (fst r) \<le> 4300) rs"

text \<open>Read and reference length consumed by a list of runs.\<close>

definition read_consumed :: "run list \<Rightarrow> int" where
  "read_consumed rs = sum_list (map run_count (filter (\<lambda>r. snd r \<in> set ''=XI'') rs))"

definition reference_consumed :: "run list \<Rightarrow> int" where
  "reference_consumed rs = sum_list (map run_count (filter (\<lambda>r. snd r \<in> set ''=XD'') rs))"

definition cursor_after :: "run list \<Rightarrow> int \<times> int" where
  "cursor_after rs = (read_consumed rs, reference_consumed rs)"

text \<open>The cursor that starts at \<open>(i, j)\<close>, after the first \<open>k\<close> runs of \<open>rs\<close>.\<close>

definition vertex_at :: "int \<Rightarrow> int \<Rightarrow> run list \<Rightarrow> nat \<Rightarrow> int \<times> int" where
  "vertex_at i j rs k = (i + read_consumed (take k rs), j + reference_consumed (take k rs))"

text \<open>
  The path of a list of runs: \<open>(0, 0)\<close>, then the cursor after each run. Its segments:
  for each run of type \<^verbatim>\<open>=\<close>, in order, the cursor before and after it.
\<close>

definition path_of_runs :: "run list \<Rightarrow> (int \<times> int) list" where
  "path_of_runs rs = (0, 0) # map (\<lambda>k. cursor_after (take (Suc k) rs)) [0..<length rs]"

definition segments_of_runs :: "run list \<Rightarrow> ((int \<times> int) \<times> (int \<times> int)) list" where
  "segments_of_runs rs =
     map (\<lambda>k. (cursor_after (take k rs), cursor_after (take (Suc k) rs)))
         (filter (\<lambda>k. snd (rs ! k) = CHR ''='') [0..<length rs])"

text \<open>The runs of the CIGAR string \<^verbatim>\<open>3=2X1I4=\<close>, used as a running example.\<close>

abbreviation example_runs :: "run list" where
  "example_runs \<equiv> [(''3'', CHR ''=''), (''2'', CHR ''X''), (''1'', CHR ''I''), (''4'', CHR ''='')]"

text \<open>The path and the segments that the decoders return for it.\<close>

abbreviation example_path :: "(int \<times> int) list" where
  "example_path \<equiv> [(0, 0), (3, 3), (5, 5), (6, 5), (10, 9)]"

abbreviation example_segments :: "((int \<times> int) \<times> (int \<times> int)) list" where
  "example_segments \<equiv> [((0, 0), (3, 3)), ((6, 5), (10, 9))]"

section \<open>What the regular expression finds\<close>

text \<open>
  Giving digits back never helps: the character after a shorter digit prefix is a digit,
  which is not an edit symbol. So a match at the start of \<open>s\<close> is the whole leading digit
  string and the symbol after it.
\<close>

lemma digit_not_symbol: "is_digit c \<Longrightarrow> \<not> is_edit_symbol c"
  by (auto simp: is_digit_def is_edit_symbol_def)

lemma backtrack_inside_digits:
  "k < length (takeWhile is_digit s) \<Longrightarrow> backtrack s k = None"
proof (induction k)
  case 0
  show ?case by simp
next
  case (Suc k)
  let ?n = "length (takeWhile is_digit s)"
  have le: "?n \<le> length s" by (rule length_takeWhile_le)
  with Suc.prems have lt: "Suc k < length s" by simp
  have "s ! Suc k = takeWhile is_digit s ! Suc k"
    using Suc.prems by (simp add: takeWhile_nth)
  moreover have "takeWhile is_digit s ! Suc k \<in> set (takeWhile is_digit s)"
    using Suc.prems by (intro nth_mem)
  ultimately have dig: "is_digit (s ! Suc k)"
    by (auto dest: set_takeWhileD)
  have "drop (Suc k) s = s ! Suc k # drop (Suc (Suc k)) s"
    using lt by (simp add: Cons_nth_drop_Suc)
  moreover have "backtrack s k = None"
    using Suc by simp
  ultimately show ?case
    using dig by (simp add: digit_not_symbol)
qed

lemma match_at_greedy:
  "match_at s =
     (case dropWhile is_digit s of
        [] \<Rightarrow> None
      | c # rest \<Rightarrow>
          if takeWhile is_digit s \<noteq> [] \<and> is_edit_symbol c
          then Some ((takeWhile is_digit s, c), rest) else None)"
proof (cases "length (takeWhile is_digit s)")
  case 0
  then have tw: "takeWhile is_digit s = []" by simp
  have "match_at s = None"
    by (simp add: match_at_def tw)
  then show ?thesis
    by (simp add: tw split: list.split)
next
  case (Suc k)
  have d: "drop (Suc k) s = dropWhile is_digit s"
    using Suc dropWhile_eq_drop [of is_digit s] by simp
  have t: "take (Suc k) s = takeWhile is_digit s"
    using Suc takeWhile_eq_take [of is_digit s] by simp
  have ne: "takeWhile is_digit s \<noteq> []"
    using Suc by auto
  have bk: "backtrack s k = None"
    using Suc by (simp add: backtrack_inside_digits)
  have m: "match_at s = backtrack s (Suc k)"
    by (simp add: match_at_def Suc)
  show ?thesis
  proof (cases "dropWhile is_digit s")
    case Nil
    show ?thesis by (simp add: m d Nil bk)
  next
    case (Cons c rest)
    show ?thesis by (simp add: m d t Cons bk ne)
  qed
qed

lemma match_at_run:
  assumes "ds \<noteq> []" "list_all is_digit ds" "is_edit_symbol t"
  shows "match_at (ds @ t # s) = Some ((ds, t), s)"
proof -
  have nd: "\<not> is_digit t"
    using assms(3) digit_not_symbol by blast
  have all: "\<forall>x\<in>set ds. is_digit x"
    using assms(2) by (simp add: list_all_iff)
  have "takeWhile is_digit (ds @ t # s) = ds"
    using all nd by (simp add: takeWhile_append2)
  moreover have "dropWhile is_digit (ds @ t # s) = t # s"
    using all nd by (simp add: dropWhile_append2)
  ultimately show ?thesis
    using assms by (simp add: match_at_greedy)
qed

lemma finditer_run:
  assumes "ds \<noteq> []" "list_all is_digit ds" "is_edit_symbol t"
  shows "finditer (ds @ t # s) = (ds, t) # finditer s"
proof -
  obtain c s' where eq: "ds @ t # s = c # s'"
    by (cases "ds @ t # s") auto
  show ?thesis
    using match_at_run [OF assms, of s] unfolding eq by simp
qed

lemma finditer_cigar_of_runs:
  "list_all run_ok rs \<Longrightarrow> finditer (cigar_of_runs rs) = rs"
  by (induction rs) (auto simp: cigar_of_runs_def run_ok_def finditer_run)

lemma match_at_run_ok:
  "match_at s = Some (r, rest) \<Longrightarrow> run_ok r"
  by (auto simp: match_at_greedy run_ok_def list_all_iff split: list.splits if_splits dest: set_takeWhileD)

lemma finditer_run_ok: "list_all run_ok (finditer s)"
  by (induction s rule: finditer.induct) (auto split: option.splits dest: match_at_run_ok)

section \<open>The two descriptions of the grammar agree\<close>

lemma grammar_from_digits:
  "list_all is_digit ds \<Longrightarrow> ds \<noteq> [] \<Longrightarrow> grammar_from b (ds @ s) = grammar_from True s"
proof (induction ds arbitrary: b)
  case Nil
  then show ?case by simp
next
  case (Cons d ds)
  then show ?case by (cases "ds = []") simp_all
qed

lemma grammar_from_run:
  "run_ok r \<Longrightarrow> grammar_from b (fst r @ snd r # s) = grammar_from False s"
  using digit_not_symbol [of "snd r"]
  by (auto simp: run_ok_def grammar_from_digits)

lemma cigar_grammar_of_runs:
  "list_all run_ok rs \<Longrightarrow> cigar_grammar (cigar_of_runs rs)"
  unfolding cigar_grammar_def cigar_of_runs_def
  by (induction rs) (simp_all add: grammar_from_run)

lemma grammar_from_runs:
  "list_all is_digit acc \<Longrightarrow> grammar_from (acc \<noteq> []) s \<Longrightarrow>
     \<exists>rs. list_all run_ok rs \<and> cigar_of_runs rs = acc @ s"
proof (induction s arbitrary: acc)
  case Nil
  then have "acc = []" by simp
  then have "list_all run_ok [] \<and> cigar_of_runs [] = acc @ []"
    by (simp add: cigar_of_runs_def)
  then show ?case by blast
next
  case (Cons c s)
  show ?case
  proof (cases "is_digit c")
    case True
    with Cons.prems have "list_all is_digit (acc @ [c])" "grammar_from (acc @ [c] \<noteq> []) s"
      by simp_all
    from Cons.IH [OF this] show ?thesis by simp
  next
    case False
    with Cons.prems have ne: "acc \<noteq> []" and sym: "is_edit_symbol c" and g: "grammar_from ([] \<noteq> []) s"
      by (auto split: if_splits)
    from Cons.IH [OF _ g] obtain rs where rs: "list_all run_ok rs" "cigar_of_runs rs = s"
      by auto
    have "list_all run_ok ((acc, c) # rs) \<and> cigar_of_runs ((acc, c) # rs) = acc @ c # s"
      using rs ne sym Cons.prems(1) by (simp add: run_ok_def cigar_of_runs_def)
    then show ?thesis by blast
  qed
qed

lemma cigar_grammar_iff:
  "cigar_grammar s \<longleftrightarrow> (\<exists>rs. list_all run_ok rs \<and> cigar_of_runs rs = s)"
proof
  assume "cigar_grammar s"
  then have "grammar_from ([] \<noteq> []) s" by (simp add: cigar_grammar_def)
  from grammar_from_runs [OF _ this] show "\<exists>rs. list_all run_ok rs \<and> cigar_of_runs rs = s"
    by simp
next
  assume "\<exists>rs. list_all run_ok rs \<and> cigar_of_runs rs = s"
  then show "cigar_grammar s" by (auto simp: cigar_grammar_of_runs)
qed

section \<open>The value of a count\<close>

text \<open>
  On a string of digits the left-to-right fold of \<^verbatim>\<open>int\<close> computes the number the digits
  write, unless the string is longer than the conversion limit.
\<close>

lemma digit_value_digit_of: "is_digit c \<Longrightarrow> digit_value c = digit_of c"
proof -
  assume "is_digit c"
  then have "c = CHR ''0'' \<or> c = CHR ''1'' \<or> c = CHR ''2'' \<or> c = CHR ''3'' \<or> c = CHR ''4'' \<or>
             c = CHR ''5'' \<or> c = CHR ''6'' \<or> c = CHR ''7'' \<or> c = CHR ''8'' \<or> c = CHR ''9''"
    by (simp add: is_digit_def)
  then show ?thesis
    by (elim disjE) (simp_all add: digit_value_def digit_of_def)
qed

lemma count_value_snoc:
  "count_value (ds @ [d]) = 10 * count_value ds + digit_of d"
proof -
  have "map (\<lambda>k. digit_of ((ds @ [d]) ! k) * 10 ^ (length (ds @ [d]) - Suc k)) [0..<length ds] =
        map (\<lambda>k. 10 * (digit_of (ds ! k) * 10 ^ (length ds - Suc k))) [0..<length ds]"
  proof (rule map_cong [OF refl])
    fix k assume "k \<in> set [0..<length ds]"
    then have k: "k < length ds" by simp
    then have "length (ds @ [d]) - Suc k = Suc (length ds - Suc k)" by simp
    then show "digit_of ((ds @ [d]) ! k) * 10 ^ (length (ds @ [d]) - Suc k) =
               10 * (digit_of (ds ! k) * 10 ^ (length ds - Suc k))"
      using k by (simp add: nth_append)
  qed
  then have "sum_list (map (\<lambda>k. digit_of ((ds @ [d]) ! k) * 10 ^ (length (ds @ [d]) - Suc k)) [0..<length ds]) =
             10 * count_value ds"
    by (simp only: count_value_def sum_list_const_mult)
  then show ?thesis
    by (simp add: count_value_def [of "ds @ [d]"])
qed

lemma foldl_digits_count_value:
  "list_all is_digit ds \<Longrightarrow> foldl (\<lambda>n c. 10 * n + digit_value c) 0 ds = count_value ds"
proof (induction ds rule: rev_induct)
  case Nil
  show ?case by (simp add: count_value_def)
next
  case (snoc d ds)
  then show ?case
    by (simp add: count_value_snoc digit_value_digit_of)
qed

lemma int_of_digits_fits:
  "list_all is_digit ds \<Longrightarrow> length ds \<le> 4300 \<Longrightarrow> int_of_digits ds = Inr (count_value ds)"
  by (simp add: int_of_digits_def int_max_str_digits_def foldl_digits_count_value)

lemma int_of_digits_limit:
  "4300 < length ds \<Longrightarrow> int_of_digits ds = Inl (ValueError (IntStrDigitsLimit (length ds)))"
  by (simp add: int_of_digits_def int_max_str_digits_def)

lemma digit_of_nonneg: "0 \<le> digit_of c"
  by (simp add: digit_of_def)

lemma count_value_nonneg: "0 \<le> count_value ds"
  unfolding count_value_def
  by (rule sum_list_nonneg) (auto simp: digit_of_nonneg)

lemma run_count_nonneg: "0 \<le> run_count r"
  by (simp add: run_count_def count_value_nonneg)

section \<open>The decoding loops on well-formed runs\<close>

text \<open>
  On runs whose symbols are among the four edit types the chain never raises, so a loop
  fails only where \<^verbatim>\<open>int\<close> does: at the first count of more than 4300 digits.
  Otherwise the path is the list of cursors after each run, and the segments are the
  cursor pairs around the runs of type \<^verbatim>\<open>=\<close>.
\<close>

lemma read_consumed_Cons:
  "read_consumed (r # rs) = (if snd r \<in> set ''=XI'' then run_count r else 0) + read_consumed rs"
  by (simp add: read_consumed_def)

lemma reference_consumed_Cons:
  "reference_consumed (r # rs) = (if snd r \<in> set ''=XD'' then run_count r else 0) + reference_consumed rs"
  by (simp add: reference_consumed_def)

lemma read_consumed_Nil: "read_consumed [] = 0"
  by (simp add: read_consumed_def)

lemma reference_consumed_Nil: "reference_consumed [] = 0"
  by (simp add: reference_consumed_def)

lemma advance_run_ok:
  "is_edit_symbol t \<Longrightarrow>
     advance t c i j =
       Inr (i + (if t \<in> set ''=XI'' then c else 0), j + (if t \<in> set ''=XD'' then c else 0))"
  by (auto simp: is_edit_symbol_def advance_def)

lemma vertex_at_Cons_Suc:
  "vertex_at i j (r # rs) (Suc k) =
     vertex_at (i + (if snd r \<in> set ''=XI'' then run_count r else 0))
               (j + (if snd r \<in> set ''=XD'' then run_count r else 0)) rs k"
  by (simp add: vertex_at_def read_consumed_Cons reference_consumed_Cons)

lemma vertex_at_0: "vertex_at i j rs 0 = (i, j)"
  by (simp add: vertex_at_def read_consumed_Nil reference_consumed_Nil)

lemma upt_0_Suc: "[0..<Suc n] = 0 # map Suc [0..<n]"
  by (simp add: upt_conv_Cons map_Suc_upt del: upt_Suc)


lemma counts_fit_find:
  "counts_fit rs \<longleftrightarrow> find (\<lambda>r. 4300 < length (fst r)) rs = None"
  by (auto simp: counts_fit_def list_all_iff find_None_iff not_less)

lemma coords_loop_runs:
  "list_all run_ok rs \<Longrightarrow>
     coords_loop rs i j res =
       (case find (\<lambda>r. 4300 < length (fst r)) rs of
          None \<Rightarrow> Inr (res @ map (\<lambda>k. vertex_at i j rs (Suc k)) [0..<length rs])
        | Some r \<Rightarrow> Inl (ValueError (IntStrDigitsLimit (length (fst r)))))"
proof (induction rs arbitrary: i j res)
  case Nil
  then show ?case by simp
next
  case (Cons r rs)
  obtain g1 g2 where r: "r = (g1, g2)" by (cases r)
  from Cons.prems have head: "run_ok (g1, g2)" and rest: "list_all run_ok rs"
    by (simp_all add: r)
  from head have ok: "is_edit_symbol g2" and digits: "list_all is_digit g1"
    by (simp_all add: run_ok_def)
  show ?case
  proof (cases "4300 < length g1")
    case True
    then show ?thesis
      by (simp add: r int_of_digits_limit)
  next
    case False
    then have conv: "int_of_digits g1 = Inr (count_value g1)"
      using digits by (simp add: int_of_digits_fits)
    have len: "[0..<length (r # rs)] = 0 # map Suc [0..<length rs]"
      by (simp add: upt_0_Suc del: upt_Suc)
    show ?thesis
      unfolding len
      using False
      by (simp add: r conv Let_def advance_run_ok [OF ok] Cons.IH [OF rest] o_def
          vertex_at_Cons_Suc run_count_def vertex_at_0 split: option.split)
  qed
qed

lemma match_coords_loop_runs:
  "list_all run_ok rs \<Longrightarrow>
     match_coords_loop rs i j res =
       (case find (\<lambda>r. 4300 < length (fst r)) rs of
          None \<Rightarrow>
            Inr (res @ map (\<lambda>k. (vertex_at i j rs k, vertex_at i j rs (Suc k)))
                           (filter (\<lambda>k. snd (rs ! k) = CHR ''='') [0..<length rs]))
        | Some r \<Rightarrow> Inl (ValueError (IntStrDigitsLimit (length (fst r)))))"
proof (induction rs arbitrary: i j res)
  case Nil
  then show ?case by simp
next
  case (Cons r rs)
  obtain g1 g2 where r: "r = (g1, g2)" by (cases r)
  from Cons.prems have head: "run_ok (g1, g2)" and rest: "list_all run_ok rs"
    by (simp_all add: r)
  from head have ok: "is_edit_symbol g2" and digits: "list_all is_digit g1"
    by (simp_all add: run_ok_def)
  show ?case
  proof (cases "4300 < length g1")
    case True
    then show ?thesis
      by (simp add: r int_of_digits_limit)
  next
    case False
    then have conv: "int_of_digits g1 = Inr (count_value g1)"
      using digits by (simp add: int_of_digits_fits)
    have len: "[0..<length (r # rs)] = 0 # map Suc [0..<length rs]"
      by (simp add: upt_0_Suc del: upt_Suc)
    show ?thesis
      unfolding len
      using False
      by (simp add: r conv Let_def advance_run_ok [OF ok] Cons.IH [OF rest] filter_map o_def
          vertex_at_Cons_Suc run_count_def vertex_at_0 split: option.split)
  qed
qed

section \<open>The results of the decoders\<close>

text \<open>
  The matches of the regular expression are well-formed runs, so neither decoder reaches
  the \<^verbatim>\<open>raise\<close> of its chain. A decoder returns exactly when every count found has at
  most 4300 digits, and then it returns the path, or the segments, of the runs found.
\<close>

lemma vertex_at_cursor: "vertex_at 0 0 rs k = cursor_after (take k rs)"
  by (simp add: vertex_at_def cursor_after_def)

lemma cigar_to_coords_cases:
  "cigar_to_coords cigar =
     (case find (\<lambda>r. 4300 < length (fst r)) (finditer cigar) of
        None \<Rightarrow> Inr (path_of_runs (finditer cigar))
      | Some r \<Rightarrow> Inl (ValueError (IntStrDigitsLimit (length (fst r)))))"
  by (simp add: cigar_to_coords_def coords_loop_runs [OF finditer_run_ok] vertex_at_cursor
      path_of_runs_def split: option.split)

lemma cigar_to_match_coords_cases:
  "cigar_to_match_coords cigar =
     (case find (\<lambda>r. 4300 < length (fst r)) (finditer cigar) of
        None \<Rightarrow> Inr (segments_of_runs (finditer cigar))
      | Some r \<Rightarrow> Inl (ValueError (IntStrDigitsLimit (length (fst r)))))"
  by (simp add: cigar_to_match_coords_def match_coords_loop_runs [OF finditer_run_ok]
      vertex_at_cursor segments_of_runs_def split: option.split)

lemma cigar_to_coords_fit:
  "counts_fit (finditer cigar) \<Longrightarrow> cigar_to_coords cigar = Inr (path_of_runs (finditer cigar))"
  by (simp add: cigar_to_coords_cases counts_fit_find)

lemma cigar_to_match_coords_fit:
  "counts_fit (finditer cigar) \<Longrightarrow>
     cigar_to_match_coords cigar = Inr (segments_of_runs (finditer cigar))"
  by (simp add: cigar_to_match_coords_cases counts_fit_find)

lemma cigar_to_coords_Inr:
  "cigar_to_coords cigar = Inr path \<Longrightarrow>
     counts_fit (finditer cigar) \<and> path = path_of_runs (finditer cigar)"
  by (auto simp: cigar_to_coords_cases counts_fit_find split: option.splits)

lemma cigar_to_match_coords_Inr:
  "cigar_to_match_coords cigar = Inr segs \<Longrightarrow>
     counts_fit (finditer cigar) \<and> segs = segments_of_runs (finditer cigar)"
  by (auto simp: cigar_to_match_coords_cases counts_fit_find split: option.splits)

lemma length_path_of_runs: "length (path_of_runs rs) = length rs + 1"
  by (simp add: path_of_runs_def)

lemma path_of_runs_nth:
  assumes "k \<le> length rs"
  shows "path_of_runs rs ! k = cursor_after (take k rs)"
proof (cases k)
  case 0
  then show ?thesis
    by (simp add: path_of_runs_def cursor_after_def read_consumed_Nil reference_consumed_Nil)
next
  case (Suc k')
  with assms show ?thesis by (simp add: path_of_runs_def)
qed

lemma last_path_of_runs: "last (path_of_runs rs) = cursor_after rs"
proof -
  have "path_of_runs rs \<noteq> []"
    by (simp add: path_of_runs_def)
  then have "last (path_of_runs rs) = path_of_runs rs ! (length (path_of_runs rs) - 1)"
    by (rule last_conv_nth)
  also have "\<dots> = path_of_runs rs ! length rs"
    by (simp add: length_path_of_runs)
  also have "\<dots> = cursor_after (take (length rs) rs)"
    by (rule path_of_runs_nth) simp
  finally show ?thesis by simp
qed

lemma read_consumed_snoc:
  "read_consumed (rs @ [r]) = read_consumed rs + (if snd r \<in> set ''=XI'' then run_count r else 0)"
  by (simp add: read_consumed_def)

lemma reference_consumed_snoc:
  "reference_consumed (rs @ [r]) = reference_consumed rs + (if snd r \<in> set ''=XD'' then run_count r else 0)"
  by (simp add: reference_consumed_def)

lemma cursor_after_step:
  assumes "k < length rs"
  shows "cursor_after (take (Suc k) rs) =
           (fst (cursor_after (take k rs)) + (if snd (rs ! k) \<in> set ''=XI'' then run_count (rs ! k) else 0),
            snd (cursor_after (take k rs)) + (if snd (rs ! k) \<in> set ''=XD'' then run_count (rs ! k) else 0))"
  using assms
  by (simp add: take_Suc_conv_app_nth cursor_after_def read_consumed_snoc reference_consumed_snoc)

lemma path_step_le:
  assumes "k < length rs"
  shows "fst (cursor_after (take k rs)) \<le> fst (cursor_after (take (Suc k) rs)) \<and>
         snd (cursor_after (take k rs)) \<le> snd (cursor_after (take (Suc k) rs))"
  using run_count_nonneg [of "rs ! k"]
  by (simp add: cursor_after_step [OF assms])

lemma filter_by_index:
  "map ((!) xs) (filter (\<lambda>k. P (xs ! k)) [0..<length xs]) = filter P xs"
proof -
  have "filter P (map ((!) xs) [0..<length xs]) = map ((!) xs) (filter (P \<circ> (!) xs) [0..<length xs])"
    by (rule filter_map)
  then show ?thesis by (simp add: map_nth o_def)
qed

lemma length_segments_of_runs:
  "length (segments_of_runs rs) = length (filter (\<lambda>r. snd r = CHR ''='') rs)"
proof -
  have "length (map ((!) rs) (filter (\<lambda>k. snd (rs ! k) = CHR ''='') [0..<length rs])) =
        length (filter (\<lambda>r. snd r = CHR ''='') rs)"
    by (simp only: filter_by_index [of rs "\<lambda>r. snd r = CHR ''=''"])
  then show ?thesis
    by (simp only: segments_of_runs_def length_map)
qed

lemma segments_of_runs_nth:
  assumes "m < length (segments_of_runs rs)"
  shows "fst (snd (segments_of_runs rs ! m)) - fst (fst (segments_of_runs rs ! m)) =
           run_count (filter (\<lambda>r. snd r = CHR ''='') rs ! m) \<and>
         snd (snd (segments_of_runs rs ! m)) - snd (fst (segments_of_runs rs ! m)) =
           run_count (filter (\<lambda>r. snd r = CHR ''='') rs ! m)"
proof -
  let ?idx = "filter (\<lambda>k. snd (rs ! k) = CHR ''='') [0..<length rs]"
  let ?eqs = "filter (\<lambda>r. snd r = CHR ''='') rs"
  from assms have m: "m < length ?idx"
    by (simp add: segments_of_runs_def)
  then have "?idx ! m \<in> set ?idx" by (rule nth_mem)
  then have k: "?idx ! m < length rs" and eq: "snd (rs ! (?idx ! m)) = CHR ''=''"
    by simp_all
  have "?eqs ! m = map ((!) rs) ?idx ! m"
    by (simp only: filter_by_index [of rs "\<lambda>r. snd r = CHR ''=''"])
  also have "\<dots> = rs ! (?idx ! m)"
    using m by (rule nth_map)
  finally have r: "?eqs ! m = rs ! (?idx ! m)" .
  have "segments_of_runs rs ! m =
        (cursor_after (take (?idx ! m) rs), cursor_after (take (Suc (?idx ! m)) rs))"
    unfolding segments_of_runs_def using m by (rule nth_map)
  then show ?thesis
    by (simp add: r cursor_after_step [OF k] eq)
qed

lemma segments_on_path_of_runs:
  "segments_of_runs rs =
     map (\<lambda>r. (path_of_runs rs ! r, path_of_runs rs ! Suc r))
         (filter (\<lambda>r. snd (rs ! r) = CHR ''='') [0..<length rs])"
proof -
  have "(cursor_after (take k rs), cursor_after (take (Suc k) rs)) =
        (path_of_runs rs ! k, path_of_runs rs ! Suc k)"
    if "k \<in> set (filter (\<lambda>r. snd (rs ! r) = CHR ''='') [0..<length rs])" for k
  proof -
    from that have "k < length rs" by simp
    then show ?thesis
      by (simp add: path_of_runs_nth)
  qed
  then show ?thesis
    unfolding segments_of_runs_def by (intro map_cong refl)
qed

section \<open>The scan for window anchors\<close>

text \<open>
  The anchor list is never empty, so \<^verbatim>\<open>window_starts[-1]\<close> never raises; the scan
  returns after one pass over the path, and a path extended by one vertex extends the
  scan by one step.
\<close>

lemma window_starts_loop_total:
  "window_starts \<noteq> [] \<Longrightarrow>
     \<exists>anchors. window_starts_loop path W O' window_starts = Inr anchors \<and>
       anchors \<noteq> [] \<and> hd anchors = hd window_starts \<and>
       length anchors \<le> length window_starts + length path"
proof (induction path arbitrary: window_starts)
  case Nil
  then show ?case by simp
next
  case (Cons v path)
  obtain i j where v: "v = (i, j)" by (cases v)
  show ?case
  proof (cases "i > fst (last window_starts) + W - O' \<or> j > snd (last window_starts) + W - O'")
    case True
    have "window_starts @ [(i, j)] \<noteq> []" by simp
    from Cons.IH [OF this] obtain anchors where
      a: "window_starts_loop path W O' (window_starts @ [(i, j)]) = Inr anchors"
        "anchors \<noteq> []" "hd anchors = hd (window_starts @ [(i, j)])"
        "length anchors \<le> length (window_starts @ [(i, j)]) + length path"
      by blast
    have "window_starts_loop (v # path) W O' window_starts = Inr anchors"
      using True Cons.prems a(1) by (simp add: v)
    moreover have "hd anchors = hd window_starts"
      using a(3) Cons.prems by simp
    moreover have "length anchors \<le> length window_starts + length (v # path)"
      using a(4) by simp
    ultimately show ?thesis using a(2) by blast
  next
    case False
    from Cons.IH [OF Cons.prems] obtain anchors where
      a: "window_starts_loop path W O' window_starts = Inr anchors"
        "anchors \<noteq> []" "hd anchors = hd window_starts"
        "length anchors \<le> length window_starts + length path"
      by blast
    have "window_starts_loop (v # path) W O' window_starts = Inr anchors"
      using False Cons.prems a(1) by (simp add: v)
    moreover have "length anchors \<le> length window_starts + length (v # path)"
      using a(4) by simp
    ultimately show ?thesis using a(2,3) by blast
  qed
qed

lemma window_starts_of_total:
  "\<exists>anchors. window_starts_of path W O' = Inr anchors \<and> anchors \<noteq> [] \<and>
     hd anchors = (0, 0) \<and> length anchors \<le> length path + 1"
  using window_starts_loop_total [of "[(0, 0)]" path W O']
  by (simp add: window_starts_of_def)

lemma window_starts_loop_snoc:
  "window_starts \<noteq> [] \<Longrightarrow>
     window_starts_loop (path @ [v]) W O' window_starts =
       (case window_starts_loop path W O' window_starts of
          Inl e \<Rightarrow> Inl e
        | Inr anchors \<Rightarrow> window_starts_loop [v] W O' anchors)"
proof (induction path arbitrary: window_starts)
  case Nil
  then show ?case by simp
next
  case (Cons u path)
  obtain i j where u: "u = (i, j)" by (cases u)
  have "window_starts @ [(i, j)] \<noteq> []" by simp
  note ih1 = Cons.IH [OF this] and ih2 = Cons.IH [OF Cons.prems]
  show ?case
    using Cons.prems by (simp add: u ih1 ih2)
qed

lemma window_starts_loop_single:
  "anchors \<noteq> [] \<Longrightarrow>
     window_starts_loop [(i, j)] W O' anchors =
       Inr (if i > fst (last anchors) + (W - O') \<or> j > snd (last anchors) + (W - O')
            then anchors @ [(i, j)] else anchors)"
  by (simp add: algebra_simps)

lemma window_starts_loop_distinct_adj:
  "window_starts \<noteq> [] \<Longrightarrow> distinct_adj window_starts \<Longrightarrow> O' \<le> W \<Longrightarrow>
     window_starts_loop path W O' window_starts = Inr anchors \<Longrightarrow> distinct_adj anchors"
proof (induction path arbitrary: window_starts)
  case Nil
  then show ?case by simp
next
  case (Cons v path)
  obtain i j where v: "v = (i, j)" by (cases v)
  show ?case
  proof (cases "i > fst (last window_starts) + W - O' \<or> j > snd (last window_starts) + W - O'")
    case True
    with Cons.prems(3) have "last window_starts \<noteq> (i, j)"
      by auto
    with Cons.prems(1,2) have d: "distinct_adj (window_starts @ [(i, j)])"
      by (simp add: distinct_adj_append_iff)
    have "window_starts_loop path W O' (window_starts @ [(i, j)]) = Inr anchors"
      using True Cons.prems(1,4) by (simp add: v)
    from Cons.IH [OF _ d Cons.prems(3) this] show ?thesis by simp
  next
    case False
    have "window_starts_loop path W O' window_starts = Inr anchors"
      using False Cons.prems(1,4) by (simp add: v)
    from Cons.IH [OF Cons.prems(1,2,3) this] show ?thesis .
  qed
qed

lemma plot_windows_loop_colors:
  "colors \<noteq> [] \<Longrightarrow>
     plot_windows_loop i window_starts read reference colors W plotted =
       Inr (plotted @
            map (\<lambda>k. (map fst (window_polygon (window_starts ! k) (window_end (window_starts ! k) W read reference)),
                      map snd (window_polygon (window_starts ! k) (window_end (window_starts ! k) W read reference)),
                      colors ! ((i + k) mod length colors)))
                [0..<length window_starts])"
proof (induction window_starts arbitrary: i plotted)
  case Nil
  then show ?case by simp
next
  case (Cons a window_starts)
  have len: "[0..<length (a # window_starts)] = 0 # map Suc [0..<length window_starts]"
    by (simp add: upt_0_Suc del: upt_Suc)
  show ?case
    unfolding len
    by (simp add: Let_def Cons.prems Cons.IH [OF Cons.prems] o_def)
qed

section \<open>Evaluating the model\<close>

text \<open>The definitions that a closed computation unfolds.\<close>

lemmas eval_defs =
  cigar_to_coords_def cigar_to_match_coords_def plot_genasm_windows_def window_starts_of_def
  window_polygon_def window_end_def cigar_of_runs_def counts_fit_def
  match_at_def is_digit_def is_edit_symbol_def
  int_of_digits_def int_max_str_digits_def digit_value_def advance_def
  run_count_def count_value_def digit_of_def

text \<open>
  The spec's example of an unknown edit type, \<^verbatim>\<open>3=\<close> followed by \<^verbatim>\<open>2Z\<close>: the class
  \<^verbatim>\<open>[=XID]\<close> of the regular expression does not match \<^verbatim>\<open>Z\<close>, so \<^verbatim>\<open>2Z\<close> is no match
  and the last branch of \<open>advance\<close> is not reached.
\<close>

lemma unknown_symbol_example:
  "cigar_to_coords ''3=2Z'' = Inr [(0, 0), (3, 3)] \<and>
   cigar_to_match_coords ''3=2Z'' = Inr [((0, 0), (3, 3))]"
proof -
  have "cigar_to_coords ''3=2Z'' = Inr [(0, 0), (3, 3)]"
    by (simp add: eval_defs)
  moreover have "cigar_to_match_coords ''3=2Z'' = Inr [((0, 0), (3, 3))]"
    by (simp add: eval_defs)
  ultimately show ?thesis by (rule conjI)
qed

text \<open>
  A count of 4301 digits: the string is in the grammar, and \<^verbatim>\<open>int\<close> raises in both
  decoders before anything is returned.
\<close>

lemma overlong_count_example:
  "cigar_grammar (replicate 4301 (CHR ''0'') @ ''='') \<and>
   cigar_to_coords (replicate 4301 (CHR ''0'') @ ''='') = Inl (ValueError (IntStrDigitsLimit 4301)) \<and>
   cigar_to_match_coords (replicate 4301 (CHR ''0'') @ ''='') = Inl (ValueError (IntStrDigitsLimit 4301))"
proof -
  let ?ds = "replicate 4301 (CHR ''0'')"
  have digits: "list_all is_digit ?ds"
    by (simp add: list_all_iff is_digit_def)
  have ok: "list_all run_ok [(?ds, CHR ''='')]"
    using digits by (simp add: run_ok_def is_edit_symbol_def)
  have str: "cigar_of_runs [(?ds, CHR ''='')] = ?ds @ ''=''"
    by (simp add: cigar_of_runs_def)
  have runs: "finditer (?ds @ ''='') = [(?ds, CHR ''='')]"
    using finditer_cigar_of_runs [OF ok] by (simp only: str)
  have "cigar_grammar (?ds @ ''='')"
    using cigar_grammar_of_runs [OF ok] by (simp only: str)
  moreover have "cigar_to_coords (?ds @ ''='') = Inl (ValueError (IntStrDigitsLimit 4301))"
    by (simp add: cigar_to_coords_cases runs)
  moreover have "cigar_to_match_coords (?ds @ ''='') = Inl (ValueError (IntStrDigitsLimit 4301))"
    by (simp add: cigar_to_match_coords_cases runs)
  ultimately show ?thesis by (intro conjI)
qed

section \<open>Properties of \<^verbatim>\<open>cigar_to_coords\<close> and \<^verbatim>\<open>cigar_to_match_coords\<close>\<close>

text \<open>
  In the theorems below a valid CIGAR string is \<open>cigar_of_runs rs\<close> for a list \<open>rs\<close> of
  well-formed runs; by \<open>cigar_grammar_iff\<close> these are the strings of the grammar
  \<^verbatim>\<open>(\d+[=XID])*\<close>, and by \<open>finditer_cigar_of_runs\<close> the list \<open>rs\<close> is determined by
  the string. The count of a run is \<open>run_count\<close>, the number its digits write. A decoder
  returns on such a string exactly when \<^verbatim>\<open>int\<close> accepts every count, which it does for
  counts of at most 4300 digits (\<open>counts_fit\<close>); each theorem says that the decoder
  returns then, and what holds of the result whenever it returns.
\<close>

text \<open>
  Claim C1 says that a string with text outside the run grammar makes both decoders fail
  with an error and return nothing. They do not: \<^verbatim>\<open>re.finditer\<close> skips the text that
  matches nowhere, and the decoders return the decode of the runs that were found. In
  \<^verbatim>\<open>3=X2D\<close> the \<^verbatim>\<open>X\<close> has no count; the string is not in the grammar, and both
  decoders return a result.
\<close>

theorem malformed_cigar_is_decoded:
  "\<not> cigar_grammar ''3=X2D'' \<and>
   cigar_to_coords ''3=X2D'' = Inr [(0, 0), (3, 3), (3, 5)] \<and>
   cigar_to_match_coords ''3=X2D'' = Inr [((0, 0), (3, 3))]"
proof -
  have "\<not> cigar_grammar ''3=X2D''"
    by (simp add: cigar_grammar_def is_digit_def is_edit_symbol_def)
  moreover have "cigar_to_coords ''3=X2D'' = Inr [(0, 0), (3, 3), (3, 5)]"
    by (simp add: eval_defs)
  moreover have "cigar_to_match_coords ''3=X2D'' = Inr [((0, 0), (3, 3))]"
    by (simp add: eval_defs)
  ultimately show ?thesis by (intro conjI)
qed

text \<open>
  Claim C1, amended. For every string made only of decimal digits and the symbols
  \<^verbatim>\<open>=\<close>, \<^verbatim>\<open>X\<close>, \<^verbatim>\<open>I\<close>, \<^verbatim>\<open>D\<close>, in which every count that the scan finds has at most
  4300 digits, also one that is not in the grammar (a symbol with no count before it,
  digits with no symbol after them), neither decoder fails: the matches found by the scan
  are well-formed runs, both decoders return what they return on the valid CIGAR string
  made of these runs alone, and the path has one vertex per match after \<open>(0, 0)\<close>.
\<close>

theorem decoders_skip_unmatched_text:
  assumes "set cigar \<subseteq> set ''0123456789=XID''"
    and "counts_fit (finditer cigar)"
  shows "list_all run_ok (finditer cigar) \<and>
         cigar_to_coords cigar = cigar_to_coords (cigar_of_runs (finditer cigar)) \<and>
         cigar_to_match_coords cigar = cigar_to_match_coords (cigar_of_runs (finditer cigar)) \<and>
         (\<exists>path. cigar_to_coords cigar = Inr path \<and> length path = length (finditer cigar) + 1) \<and>
         (\<exists>segs. cigar_to_match_coords cigar = Inr segs)"
proof -
  have ok: "list_all run_ok (finditer cigar)"
    by (rule finditer_run_ok)
  have same: "finditer (cigar_of_runs (finditer cigar)) = finditer cigar"
    using ok by (rule finditer_cigar_of_runs)
  have "cigar_to_coords cigar = cigar_to_coords (cigar_of_runs (finditer cigar))"
    by (simp only: cigar_to_coords_def same)
  moreover have "cigar_to_match_coords cigar = cigar_to_match_coords (cigar_of_runs (finditer cigar))"
    by (simp only: cigar_to_match_coords_def same)
  moreover have "\<exists>path. cigar_to_coords cigar = Inr path \<and> length path = length (finditer cigar) + 1"
    by (simp add: cigar_to_coords_fit [OF assms(2)] length_path_of_runs)
  moreover have "\<exists>segs. cigar_to_match_coords cigar = Inr segs"
    by (simp add: cigar_to_match_coords_fit [OF assms(2)])
  ultimately show ?thesis using ok by (intro conjI)
qed

theorem decoders_skip_unmatched_text_witness:
  "set ''3=X2D'' \<subseteq> set ''0123456789=XID'' \<and>
   counts_fit (finditer ''3=X2D'') \<and>
   list_all run_ok (finditer ''3=X2D'') \<and>
   cigar_to_coords ''3=X2D'' = cigar_to_coords (cigar_of_runs (finditer ''3=X2D'')) \<and>
   cigar_to_match_coords ''3=X2D'' = cigar_to_match_coords (cigar_of_runs (finditer ''3=X2D'')) \<and>
   (\<exists>path. cigar_to_coords ''3=X2D'' = Inr path \<and> length path = length (finditer ''3=X2D'') + 1) \<and>
   (\<exists>segs. cigar_to_match_coords ''3=X2D'' = Inr segs)"
proof -
  have h: "set ''3=X2D'' \<subseteq> set ''0123456789=XID''"
    by simp
  have f: "counts_fit (finditer ''3=X2D'')"
    by (simp add: eval_defs)
  show ?thesis
    by (rule conjI [OF h conjI [OF f decoders_skip_unmatched_text [OF h f]]])
qed

text \<open>
  Claim C2. For every string of the grammar \<^verbatim>\<open>(\d+[=XID])*\<close>, \<^verbatim>\<open>cigar_to_coords\<close>
  returns a path of exactly (number of runs + 1) vertices that starts with \<open>(0, 0)\<close>, with
  one vertex after each run in order of appearance: vertex \<open>k + 1\<close> is the cursor after the
  first \<open>k + 1\<close> runs. The decoder returns when no count has more than 4300 digits, and
  every path it returns is of this form.
\<close>

theorem cigar_to_coords_vertices:
  assumes "list_all run_ok rs"
  shows "(counts_fit rs \<longrightarrow> (\<exists>path. cigar_to_coords (cigar_of_runs rs) = Inr path)) \<and>
         (\<forall>path. cigar_to_coords (cigar_of_runs rs) = Inr path \<longrightarrow>
            length path = length rs + 1 \<and>
            path ! 0 = (0, 0) \<and>
            (\<forall>k<length rs. path ! Suc k = cursor_after (take (Suc k) rs)))"
proof -
  have rs: "finditer (cigar_of_runs rs) = rs"
    using assms by (rule finditer_cigar_of_runs)
  have returns: "counts_fit rs \<longrightarrow> (\<exists>path. cigar_to_coords (cigar_of_runs rs) = Inr path)"
    using cigar_to_coords_fit [of "cigar_of_runs rs"] by (simp add: rs)
  have "length path = length rs + 1 \<and> path ! 0 = (0, 0) \<and>
        (\<forall>k<length rs. path ! Suc k = cursor_after (take (Suc k) rs))"
    if "cigar_to_coords (cigar_of_runs rs) = Inr path" for path
  proof -
    from that have path: "path = path_of_runs rs"
      using cigar_to_coords_Inr [of "cigar_of_runs rs" path] by (simp add: rs)
    show ?thesis
      unfolding path
      by (simp add: length_path_of_runs path_of_runs_nth [of 0] path_of_runs_nth [of "Suc _"]
          cursor_after_def read_consumed_Nil reference_consumed_Nil)
  qed
  with returns show ?thesis by blast
qed

theorem cigar_to_coords_vertices_witness:
  "list_all run_ok example_runs \<and> counts_fit example_runs \<and>
   cigar_to_coords (cigar_of_runs example_runs) = Inr example_path \<and>
   (\<exists>path. cigar_to_coords (cigar_of_runs example_runs) = Inr path \<and>
      length path = length example_runs + 1 \<and>
      path ! 0 = (0, 0) \<and>
      (\<forall>k<length example_runs. path ! Suc k = cursor_after (take (Suc k) example_runs)))"
proof -
  have ok: "list_all run_ok example_runs"
    by (simp add: run_ok_def is_digit_def is_edit_symbol_def)
  have fit: "counts_fit example_runs"
    by (simp add: counts_fit_def)
  have p: "cigar_to_coords (cigar_of_runs example_runs) = Inr example_path"
    by (simp add: eval_defs)
  have "\<forall>path. cigar_to_coords (cigar_of_runs example_runs) = Inr path \<longrightarrow>
      length path = length example_runs + 1 \<and>
      path ! 0 = (0, 0) \<and>
      (\<forall>k<length example_runs. path ! Suc k = cursor_after (take (Suc k) example_runs))"
    using cigar_to_coords_vertices [OF ok] by (rule conjunct2)
  then have "cigar_to_coords (cigar_of_runs example_runs) = Inr example_path \<longrightarrow>
      length example_path = length example_runs + 1 \<and>
      example_path ! 0 = (0, 0) \<and>
      (\<forall>k<length example_runs. example_path ! Suc k = cursor_after (take (Suc k) example_runs))"
    by (rule spec)
  then have t: "length example_path = length example_runs + 1 \<and>
      example_path ! 0 = (0, 0) \<and>
      (\<forall>k<length example_runs. example_path ! Suc k = cursor_after (take (Suc k) example_runs))"
    using p by (rule mp)
  have "\<exists>path. cigar_to_coords (cigar_of_runs example_runs) = Inr path \<and>
      length path = length example_runs + 1 \<and>
      path ! 0 = (0, 0) \<and>
      (\<forall>k<length example_runs. path ! Suc k = cursor_after (take (Suc k) example_runs))"
    by (rule exI [of _ example_path]) (rule conjI [OF p t])
  with ok fit p show ?thesis by (intro conjI)
qed

text \<open>
  Claim C3. For every valid CIGAR string, the last vertex of the path is (sum of the
  counts of the \<^verbatim>\<open>=\<close>, \<^verbatim>\<open>X\<close> and \<^verbatim>\<open>I\<close> runs, sum of the counts of the \<^verbatim>\<open>=\<close>, \<^verbatim>\<open>X\<close> and
  \<^verbatim>\<open>D\<close> runs): the read length and the reference length consumed. For \<^verbatim>\<open>3=2X1I4=\<close>
  these are 10 and 9.
\<close>

theorem final_vertex_totals:
  assumes "list_all run_ok rs"
  shows "(counts_fit rs \<longrightarrow> (\<exists>path. cigar_to_coords (cigar_of_runs rs) = Inr path)) \<and>
         (\<forall>path. cigar_to_coords (cigar_of_runs rs) = Inr path \<longrightarrow>
            last path = (read_consumed rs, reference_consumed rs))"
proof -
  have rs: "finditer (cigar_of_runs rs) = rs"
    using assms by (rule finditer_cigar_of_runs)
  have returns: "counts_fit rs \<longrightarrow> (\<exists>path. cigar_to_coords (cigar_of_runs rs) = Inr path)"
    using cigar_to_coords_fit [of "cigar_of_runs rs"] by (simp add: rs)
  have "last path = (read_consumed rs, reference_consumed rs)"
    if "cigar_to_coords (cigar_of_runs rs) = Inr path" for path
  proof -
    from that have path: "path = path_of_runs rs"
      using cigar_to_coords_Inr [of "cigar_of_runs rs" path] by (simp add: rs)
    show ?thesis
      unfolding path by (simp add: last_path_of_runs cursor_after_def)
  qed
  with returns show ?thesis by blast
qed

theorem final_vertex_totals_witness:
  "list_all run_ok example_runs \<and> counts_fit example_runs \<and>
   cigar_to_coords (cigar_of_runs example_runs) = Inr example_path \<and>
   last example_path = (read_consumed example_runs, reference_consumed example_runs) \<and>
   (read_consumed example_runs, reference_consumed example_runs) = (10, 9)"
proof -
  have ok: "list_all run_ok example_runs"
    by (simp add: run_ok_def is_digit_def is_edit_symbol_def)
  have fit: "counts_fit example_runs"
    by (simp add: counts_fit_def)
  have p: "cigar_to_coords (cigar_of_runs example_runs) = Inr example_path"
    by (simp add: eval_defs)
  from final_vertex_totals [OF ok] p
  have l: "last example_path = (read_consumed example_runs, reference_consumed example_runs)"
    by blast
  then have "(read_consumed example_runs, reference_consumed example_runs) = (10, 9)"
    by simp
  with ok fit p l show ?thesis by (intro conjI)
qed

text \<open>
  Claim C4. For every valid CIGAR string, the path returned is non-decreasing in both
  coordinates: consecutive vertices \<open>(i1, j1)\<close>, \<open>(i2, j2)\<close> satisfy \<open>i1 \<le> i2\<close> and
  \<open>j1 \<le> j2\<close>.
\<close>

theorem path_non_decreasing:
  assumes "list_all run_ok rs"
  shows "(counts_fit rs \<longrightarrow> (\<exists>path. cigar_to_coords (cigar_of_runs rs) = Inr path)) \<and>
         (\<forall>path. cigar_to_coords (cigar_of_runs rs) = Inr path \<longrightarrow>
            (\<forall>k. Suc k < length path \<longrightarrow>
               fst (path ! k) \<le> fst (path ! Suc k) \<and> snd (path ! k) \<le> snd (path ! Suc k)))"
proof -
  have rs: "finditer (cigar_of_runs rs) = rs"
    using assms by (rule finditer_cigar_of_runs)
  have returns: "counts_fit rs \<longrightarrow> (\<exists>path. cigar_to_coords (cigar_of_runs rs) = Inr path)"
    using cigar_to_coords_fit [of "cigar_of_runs rs"] by (simp add: rs)
  have cond: "\<forall>path. cigar_to_coords (cigar_of_runs rs) = Inr path \<longrightarrow>
      (\<forall>k. Suc k < length path \<longrightarrow>
         fst (path ! k) \<le> fst (path ! Suc k) \<and> snd (path ! k) \<le> snd (path ! Suc k))"
  proof (intro allI impI)
    fix path k
    assume dec: "cigar_to_coords (cigar_of_runs rs) = Inr path" and len: "Suc k < length path"
    from dec have path: "path = path_of_runs rs"
      using cigar_to_coords_Inr [of "cigar_of_runs rs" path] by (simp add: rs)
    from len have k: "k < length rs"
      by (simp add: path length_path_of_runs)
    have "path ! k = cursor_after (take k rs)"
      unfolding path using k by (intro path_of_runs_nth) simp
    moreover have "path ! Suc k = cursor_after (take (Suc k) rs)"
      unfolding path using k by (intro path_of_runs_nth) simp
    ultimately show "fst (path ! k) \<le> fst (path ! Suc k) \<and> snd (path ! k) \<le> snd (path ! Suc k)"
      using path_step_le [OF k] by (simp only:)
  qed
  from returns cond show ?thesis by (rule conjI)
qed

theorem path_non_decreasing_witness:
  "list_all run_ok example_runs \<and> counts_fit example_runs \<and>
   cigar_to_coords (cigar_of_runs example_runs) = Inr example_path \<and>
   (\<exists>path. cigar_to_coords (cigar_of_runs example_runs) = Inr path \<and>
      (\<forall>k. Suc k < length path \<longrightarrow>
         fst (path ! k) \<le> fst (path ! Suc k) \<and> snd (path ! k) \<le> snd (path ! Suc k)))"
proof -
  have ok: "list_all run_ok example_runs"
    by (simp add: run_ok_def is_digit_def is_edit_symbol_def)
  have fit: "counts_fit example_runs"
    by (simp add: counts_fit_def)
  have p: "cigar_to_coords (cigar_of_runs example_runs) = Inr example_path"
    by (simp add: eval_defs)
  have "\<forall>path. cigar_to_coords (cigar_of_runs example_runs) = Inr path \<longrightarrow>
      (\<forall>k. Suc k < length path \<longrightarrow>
         fst (path ! k) \<le> fst (path ! Suc k) \<and> snd (path ! k) \<le> snd (path ! Suc k))"
    using path_non_decreasing [OF ok] by (rule conjunct2)
  then have "cigar_to_coords (cigar_of_runs example_runs) = Inr example_path \<longrightarrow>
      (\<forall>k. Suc k < length example_path \<longrightarrow>
         fst (example_path ! k) \<le> fst (example_path ! Suc k) \<and> snd (example_path ! k) \<le> snd (example_path ! Suc k))"
    by (rule spec)
  then have t: "(\<forall>k. Suc k < length example_path \<longrightarrow>
         fst (example_path ! k) \<le> fst (example_path ! Suc k) \<and> snd (example_path ! k) \<le> snd (example_path ! Suc k))"
    using p by (rule mp)
  have "\<exists>path. cigar_to_coords (cigar_of_runs example_runs) = Inr path \<and>
      (\<forall>k. Suc k < length path \<longrightarrow>
         fst (path ! k) \<le> fst (path ! Suc k) \<and> snd (path ! k) \<le> snd (path ! Suc k))"
    by (rule exI [of _ example_path]) (rule conjI [OF p t])
  with ok fit p show ?thesis by (intro conjI)
qed

text \<open>
  Claim C5. For every valid CIGAR string, \<^verbatim>\<open>cigar_to_match_coords\<close> returns one segment
  per run of type \<^verbatim>\<open>=\<close> and none for the other runs, in the order of the runs; each
  segment is (cursor before, cursor after) its run, so that end minus start is the count
  of that run in both coordinates. For \<^verbatim>\<open>3=2X1I4=\<close> the counts of the two segments are
  3 and 4.
\<close>

theorem match_segments_of_equal_runs:
  assumes "list_all run_ok rs"
  shows "(counts_fit rs \<longrightarrow> (\<exists>segs. cigar_to_match_coords (cigar_of_runs rs) = Inr segs)) \<and>
         (\<forall>segs. cigar_to_match_coords (cigar_of_runs rs) = Inr segs \<longrightarrow>
            segs = map (\<lambda>k. (cursor_after (take k rs), cursor_after (take (Suc k) rs)))
                       (filter (\<lambda>k. snd (rs ! k) = CHR ''='') [0..<length rs]) \<and>
            length segs = length (filter (\<lambda>r. snd r = CHR ''='') rs) \<and>
            (\<forall>m<length segs.
               fst (snd (segs ! m)) - fst (fst (segs ! m)) = run_count (filter (\<lambda>r. snd r = CHR ''='') rs ! m) \<and>
               snd (snd (segs ! m)) - snd (fst (segs ! m)) = run_count (filter (\<lambda>r. snd r = CHR ''='') rs ! m)))"
proof -
  have rs: "finditer (cigar_of_runs rs) = rs"
    using assms by (rule finditer_cigar_of_runs)
  have returns: "counts_fit rs \<longrightarrow> (\<exists>segs. cigar_to_match_coords (cigar_of_runs rs) = Inr segs)"
    using cigar_to_match_coords_fit [of "cigar_of_runs rs"] by (simp add: rs)
  have cond: "\<forall>segs. cigar_to_match_coords (cigar_of_runs rs) = Inr segs \<longrightarrow>
      segs = map (\<lambda>k. (cursor_after (take k rs), cursor_after (take (Suc k) rs)))
                 (filter (\<lambda>k. snd (rs ! k) = CHR ''='') [0..<length rs]) \<and>
      length segs = length (filter (\<lambda>r. snd r = CHR ''='') rs) \<and>
      (\<forall>m<length segs.
         fst (snd (segs ! m)) - fst (fst (segs ! m)) = run_count (filter (\<lambda>r. snd r = CHR ''='') rs ! m) \<and>
         snd (snd (segs ! m)) - snd (fst (segs ! m)) = run_count (filter (\<lambda>r. snd r = CHR ''='') rs ! m))"
  proof (intro allI impI)
    fix segs
    assume "cigar_to_match_coords (cigar_of_runs rs) = Inr segs"
    then have segs: "segs = segments_of_runs rs"
      using cigar_to_match_coords_Inr [of "cigar_of_runs rs" segs] by (simp add: rs)
    have shape: "segments_of_runs rs =
          map (\<lambda>k. (cursor_after (take k rs), cursor_after (take (Suc k) rs)))
              (filter (\<lambda>k. snd (rs ! k) = CHR ''='') [0..<length rs])"
      by (rule segments_of_runs_def)
    have len: "length (segments_of_runs rs) = length (filter (\<lambda>r. snd r = CHR ''='') rs)"
      by (rule length_segments_of_runs)
    have each: "\<forall>m<length (segments_of_runs rs).
        fst (snd (segments_of_runs rs ! m)) - fst (fst (segments_of_runs rs ! m)) =
          run_count (filter (\<lambda>r. snd r = CHR ''='') rs ! m) \<and>
        snd (snd (segments_of_runs rs ! m)) - snd (fst (segments_of_runs rs ! m)) =
          run_count (filter (\<lambda>r. snd r = CHR ''='') rs ! m)"
      by (intro allI impI segments_of_runs_nth)
    from shape len each
    show "segs = map (\<lambda>k. (cursor_after (take k rs), cursor_after (take (Suc k) rs)))
                 (filter (\<lambda>k. snd (rs ! k) = CHR ''='') [0..<length rs]) \<and>
      length segs = length (filter (\<lambda>r. snd r = CHR ''='') rs) \<and>
      (\<forall>m<length segs.
         fst (snd (segs ! m)) - fst (fst (segs ! m)) = run_count (filter (\<lambda>r. snd r = CHR ''='') rs ! m) \<and>
         snd (snd (segs ! m)) - snd (fst (segs ! m)) = run_count (filter (\<lambda>r. snd r = CHR ''='') rs ! m))"
      unfolding segs by (intro conjI)
  qed
  from returns cond show ?thesis by (rule conjI)
qed

theorem match_segments_of_equal_runs_witness:
  "list_all run_ok example_runs \<and> counts_fit example_runs \<and>
   cigar_to_match_coords (cigar_of_runs example_runs) = Inr example_segments \<and>
   map run_count (filter (\<lambda>r. snd r = CHR ''='') example_runs) = [3, 4] \<and>
   (\<exists>segs. cigar_to_match_coords (cigar_of_runs example_runs) = Inr segs \<and>
      segs =
        map (\<lambda>k. (cursor_after (take k example_runs), cursor_after (take (Suc k) example_runs)))
            (filter (\<lambda>k. snd (example_runs ! k) = CHR ''='') [0..<length example_runs]) \<and>
      length segs = length (filter (\<lambda>r. snd r = CHR ''='') example_runs) \<and>
      (\<forall>m<length segs.
         fst (snd (segs ! m)) - fst (fst (segs ! m)) = run_count (filter (\<lambda>r. snd r = CHR ''='') example_runs ! m) \<and>
         snd (snd (segs ! m)) - snd (fst (segs ! m)) = run_count (filter (\<lambda>r. snd r = CHR ''='') example_runs ! m)))"
proof -
  have ok: "list_all run_ok example_runs"
    by (simp add: run_ok_def is_digit_def is_edit_symbol_def)
  have fit: "counts_fit example_runs"
    by (simp add: counts_fit_def)
  have p: "cigar_to_match_coords (cigar_of_runs example_runs) = Inr example_segments"
    by (simp add: eval_defs)
  have c: "map run_count (filter (\<lambda>r. snd r = CHR ''='') example_runs) = [3, 4]"
    by (simp add: eval_defs)
  have "\<forall>segs. cigar_to_match_coords (cigar_of_runs example_runs) = Inr segs \<longrightarrow>
      segs =
        map (\<lambda>k. (cursor_after (take k example_runs), cursor_after (take (Suc k) example_runs)))
            (filter (\<lambda>k. snd (example_runs ! k) = CHR ''='') [0..<length example_runs]) \<and>
      length segs = length (filter (\<lambda>r. snd r = CHR ''='') example_runs) \<and>
      (\<forall>m<length segs.
         fst (snd (segs ! m)) - fst (fst (segs ! m)) = run_count (filter (\<lambda>r. snd r = CHR ''='') example_runs ! m) \<and>
         snd (snd (segs ! m)) - snd (fst (segs ! m)) = run_count (filter (\<lambda>r. snd r = CHR ''='') example_runs ! m))"
    using match_segments_of_equal_runs [OF ok] by (rule conjunct2)
  then have "cigar_to_match_coords (cigar_of_runs example_runs) = Inr example_segments \<longrightarrow>
      example_segments =
        map (\<lambda>k. (cursor_after (take k example_runs), cursor_after (take (Suc k) example_runs)))
            (filter (\<lambda>k. snd (example_runs ! k) = CHR ''='') [0..<length example_runs]) \<and>
      length example_segments = length (filter (\<lambda>r. snd r = CHR ''='') example_runs) \<and>
      (\<forall>m<length example_segments.
         fst (snd (example_segments ! m)) - fst (fst (example_segments ! m)) = run_count (filter (\<lambda>r. snd r = CHR ''='') example_runs ! m) \<and>
         snd (snd (example_segments ! m)) - snd (fst (example_segments ! m)) = run_count (filter (\<lambda>r. snd r = CHR ''='') example_runs ! m))"
    by (rule spec)
  then have t: "example_segments =
        map (\<lambda>k. (cursor_after (take k example_runs), cursor_after (take (Suc k) example_runs)))
            (filter (\<lambda>k. snd (example_runs ! k) = CHR ''='') [0..<length example_runs]) \<and>
      length example_segments = length (filter (\<lambda>r. snd r = CHR ''='') example_runs) \<and>
      (\<forall>m<length example_segments.
         fst (snd (example_segments ! m)) - fst (fst (example_segments ! m)) = run_count (filter (\<lambda>r. snd r = CHR ''='') example_runs ! m) \<and>
         snd (snd (example_segments ! m)) - snd (fst (example_segments ! m)) = run_count (filter (\<lambda>r. snd r = CHR ''='') example_runs ! m))"
    using p by (rule mp)
  have "\<exists>segs. cigar_to_match_coords (cigar_of_runs example_runs) = Inr segs \<and>
      segs =
        map (\<lambda>k. (cursor_after (take k example_runs), cursor_after (take (Suc k) example_runs)))
            (filter (\<lambda>k. snd (example_runs ! k) = CHR ''='') [0..<length example_runs]) \<and>
      length segs = length (filter (\<lambda>r. snd r = CHR ''='') example_runs) \<and>
      (\<forall>m<length segs.
         fst (snd (segs ! m)) - fst (fst (segs ! m)) = run_count (filter (\<lambda>r. snd r = CHR ''='') example_runs ! m) \<and>
         snd (snd (segs ! m)) - snd (fst (segs ! m)) = run_count (filter (\<lambda>r. snd r = CHR ''='') example_runs ! m))"
    by (rule exI [of _ example_segments]) (rule conjI [OF p t])
  with ok fit p c show ?thesis by (intro conjI)
qed

text \<open>
  Claim C10. Whenever both decoders succeed on a string, every segment is a pair of
  consecutive path vertices: the segment of the run at index \<open>r\<close> (among the matches of
  the regular expression) is \<open>(path ! r, path ! (r + 1))\<close>.
\<close>

theorem segments_are_path_edges:
  assumes "cigar_to_coords cigar = Inr path"
    and "cigar_to_match_coords cigar = Inr segs"
  shows "segs = map (\<lambda>r. (path ! r, path ! Suc r))
                    (filter (\<lambda>r. snd (finditer cigar ! r) = CHR ''='') [0..<length (finditer cigar)])"
proof -
  from assms(1) have "path = path_of_runs (finditer cigar)"
    by (simp add: cigar_to_coords_Inr)
  moreover from assms(2) have "segs = segments_of_runs (finditer cigar)"
    by (simp add: cigar_to_match_coords_Inr)
  ultimately show ?thesis
    by (simp only: segments_on_path_of_runs)
qed

theorem segments_are_path_edges_witness:
  "cigar_to_coords ''3=2X1I4='' = Inr [(0, 0), (3, 3), (5, 5), (6, 5), (10, 9)] \<and>
   cigar_to_match_coords ''3=2X1I4='' = Inr [((0, 0), (3, 3)), ((6, 5), (10, 9))] \<and>
   ([((0, 0), (3, 3)), ((6, 5), (10, 9))] :: segment list) =
     map (\<lambda>r. ([(0, 0), (3, 3), (5, 5), (6, 5), (10, 9)] ! r, [(0, 0), (3, 3), (5, 5), (6, 5), (10, 9)] ! Suc r))
         (filter (\<lambda>r. snd (finditer ''3=2X1I4='' ! r) = CHR ''='') [0..<length (finditer ''3=2X1I4='')])"
proof -
  have p: "cigar_to_coords ''3=2X1I4='' = Inr [(0, 0), (3, 3), (5, 5), (6, 5), (10, 9)]"
    by (simp add: eval_defs)
  have m: "cigar_to_match_coords ''3=2X1I4='' = Inr [((0, 0), (3, 3)), ((6, 5), (10, 9))]"
    by (simp add: eval_defs)
  from p m segments_are_path_edges [OF p m] show ?thesis by (intro conjI)
qed

section \<open>Properties of the windows\<close>

text \<open>
  Claim C6. For every path and all integers \<open>W\<close> and \<open>O\<close>, the anchor list starts as
  \<open>[(0, 0)]\<close>, and the scan of the vertices in order appends a vertex exactly when its
  read coordinate exceeds the read coordinate of the last anchor plus \<open>W - O\<close> or its
  reference coordinate exceeds that of the last anchor plus \<open>W - O\<close>: scanning one more
  vertex \<open>(i, j)\<close> after \<open>path\<close> appends it under this condition and changes nothing
  otherwise. For the path \<open>[(0, 0), (10, 10), (20, 20)]\<close> with \<open>W = 16\<close> and \<open>O = 4\<close>
  the anchors are \<open>[(0, 0), (20, 20)]\<close>.
\<close>

theorem window_anchor_rule:
  "window_starts_of [] W O' = Inr [(0, 0)] \<and>
   (\<exists>anchors. window_starts_of path W O' = Inr anchors \<and> anchors \<noteq> [] \<and> hd anchors = (0, 0) \<and>
      window_starts_of (path @ [(i, j)]) W O' =
        Inr (if i > fst (last anchors) + (W - O') \<or> j > snd (last anchors) + (W - O')
             then anchors @ [(i, j)] else anchors)) \<and>
   window_starts_of [(0, 0), (10, 10), (20, 20)] 16 4 = Inr [(0, 0), (20, 20)]"
proof -
  have first: "window_starts_of [] W O' = Inr [(0, 0)]"
    by (simp add: window_starts_of_def)
  obtain anchors where a: "window_starts_of path W O' = Inr anchors" "anchors \<noteq> []"
      "hd anchors = (0, 0)"
    using window_starts_of_total [of path W O'] by blast
  have "window_starts_of (path @ [(i, j)]) W O' = window_starts_loop [(i, j)] W O' anchors"
    using a(1) window_starts_loop_snoc [of "[(0, 0)]" path "(i, j)" W O']
    by (simp add: window_starts_of_def)
  then have "window_starts_of (path @ [(i, j)]) W O' =
      Inr (if i > fst (last anchors) + (W - O') \<or> j > snd (last anchors) + (W - O')
           then anchors @ [(i, j)] else anchors)"
    by (simp only: window_starts_loop_single [OF a(2)])
  with a have scan: "\<exists>anchors. window_starts_of path W O' = Inr anchors \<and> anchors \<noteq> [] \<and>
      hd anchors = (0, 0) \<and>
      window_starts_of (path @ [(i, j)]) W O' =
        Inr (if i > fst (last anchors) + (W - O') \<or> j > snd (last anchors) + (W - O')
             then anchors @ [(i, j)] else anchors)"
    by (intro exI [of _ anchors] conjI)
  have example: "window_starts_of [(0, 0), (10, 10), (20, 20)] 16 4 = Inr [(0, 0), (20, 20)]"
    by (simp add: window_starts_of_def)
  from first scan example show ?thesis by (intro conjI)
qed

text \<open>
  Claim C7. For every path produced by \<^verbatim>\<open>cigar_to_coords\<close> and all integers with
  \<open>W > O \<ge> 0\<close>, the anchor sequence has \<open>(0, 0)\<close> as its first element and is strictly
  advancing: each anchor after the first differs from the one before it.
\<close>

theorem anchors_strictly_advance:
  assumes "O' < W" and "0 \<le> O'" and "cigar_to_coords cigar = Inr path"
  shows "\<exists>anchors. window_starts_of path W O' = Inr anchors \<and> anchors \<noteq> [] \<and>
           anchors ! 0 = (0, 0) \<and>
           (\<forall>k. Suc k < length anchors \<longrightarrow> anchors ! k \<noteq> anchors ! Suc k)"
proof -
  obtain anchors where a: "window_starts_of path W O' = Inr anchors" "anchors \<noteq> []"
      "hd anchors = (0, 0)"
    using window_starts_of_total [of path W O'] by blast
  have "distinct_adj anchors"
  proof (rule window_starts_loop_distinct_adj)
    show "[(0, 0)] \<noteq> []" by simp
    show "distinct_adj [(0::int, 0::int)]" by simp
    show "O' \<le> W" using assms(1) by simp
    show "window_starts_loop path W O' [(0, 0)] = Inr anchors"
      using a(1) by (simp add: window_starts_of_def)
  qed
  then have adv: "\<forall>k. Suc k < length anchors \<longrightarrow> anchors ! k \<noteq> anchors ! Suc k"
    by (simp only: distinct_adj_conv_nth)
  have "anchors ! 0 = (0, 0)"
    using a(2,3) by (simp add: hd_conv_nth)
  with a(1,2) adv show ?thesis
    by (intro exI [of _ anchors] conjI)
qed

theorem anchors_strictly_advance_witness:
  "(4::int) < 16 \<and> (0::int) \<le> 4 \<and>
   cigar_to_coords ''10=10='' = Inr [(0, 0), (10, 10), (20, 20)] \<and>
   (\<exists>anchors. window_starts_of [(0, 0), (10, 10), (20, 20)] 16 4 = Inr anchors \<and> anchors \<noteq> [] \<and>
      anchors ! 0 = (0, 0) \<and>
      (\<forall>k. Suc k < length anchors \<longrightarrow> anchors ! k \<noteq> anchors ! Suc k))"
proof -
  have w: "(4::int) < 16" and o: "(0::int) \<le> 4"
    by simp_all
  have p: "cigar_to_coords ''10=10='' = Inr [(0, 0), (10, 10), (20, 20)]"
    by (simp add: eval_defs)
  from w o p anchors_strictly_advance [OF w o p] show ?thesis by (intro conjI)
qed

text \<open>
  Claim C8. For every anchor of the sequence computed from the decoded path, the
  rectangle that \<^verbatim>\<open>plot_genasm_windows\<close> draws goes from the anchor to
  \<open>(min (anchor.read + W) read_length, min (anchor.reference + W) reference_length)\<close>:
  it is clipped at the ends of the read and of the reference. The polygon is drawn
  through its five corners, the anchor first and last. (The caller passes three colours;
  with an empty colour list the source raises before it draws.)
\<close>

theorem window_rectangles_clipped:
  assumes "colors \<noteq> []" and "cigar_to_coords cigar = Inr path"
  shows "\<exists>anchors plots.
           window_starts_of path W O' = Inr anchors \<and>
           plot_genasm_windows read reference cigar colors W O' = Inr plots \<and>
           length plots = length anchors \<and>
           (\<forall>k<length anchors.
              plots ! k =
                (let a = anchors ! k;
                     e = (min (fst a + W) (int (length read)), min (snd a + W) (int (length reference)))
                 in ([fst a, fst a, fst e, fst e, fst a],
                     [snd a, snd e, snd e, snd a, snd a],
                     colors ! (k mod length colors))))"
proof -
  note p = assms(2)
  obtain anchors where a: "window_starts_of path W O' = Inr anchors"
    using window_starts_of_total [of path W O'] by blast
  define plots where "plots =
     map (\<lambda>k. (map fst (window_polygon (anchors ! k) (window_end (anchors ! k) W read reference)),
               map snd (window_polygon (anchors ! k) (window_end (anchors ! k) W read reference)),
               colors ! (k mod length colors)))
         [0..<length anchors]"
  have run: "plot_genasm_windows read reference cigar colors W O' = Inr plots"
    by (simp add: plot_genasm_windows_def p a plot_windows_loop_colors [OF assms(1)] plots_def)
  have len: "length plots = length anchors"
    by (simp add: plots_def)
  have rect: "\<forall>k<length anchors.
      plots ! k =
        (let a = anchors ! k;
             e = (min (fst a + W) (int (length read)), min (snd a + W) (int (length reference)))
         in ([fst a, fst a, fst e, fst e, fst a],
             [snd a, snd e, snd e, snd a, snd a],
             colors ! (k mod length colors)))"
    by (simp add: plots_def Let_def window_polygon_def window_end_def)
  from a run len rect show ?thesis
    by (intro exI [of _ anchors] exI [of _ plots] conjI)
qed

theorem window_rectangles_clipped_witness:
  "[1::nat, 2, 3] \<noteq> [] \<and>
   cigar_to_coords ''10=10=1I'' = Inr [(0, 0), (10, 10), (20, 20), (21, 20)] \<and>
   plot_genasm_windows ''ACGTACGTACGTACGTACGTA'' ''ACGTACGTACGTACGTACGT'' ''10=10=1I'' [1::nat, 2, 3] 16 4 =
     Inr [([0, 0, 16, 16, 0], [0, 16, 16, 0, 0], 1), ([20, 20, 21, 21, 20], [20, 20, 20, 20, 20], 2)] \<and>
   (\<exists>anchors plots.
      window_starts_of [(0, 0), (10, 10), (20, 20), (21, 20)] 16 4 = Inr anchors \<and>
      plot_genasm_windows ''ACGTACGTACGTACGTACGTA'' ''ACGTACGTACGTACGTACGT'' ''10=10=1I'' [1::nat, 2, 3] 16 4 = Inr plots \<and>
      length plots = length anchors \<and>
      (\<forall>k<length anchors.
         plots ! k =
           (let a = anchors ! k;
                e = (min (fst a + 16) (int (length ''ACGTACGTACGTACGTACGTA'')),
                     min (snd a + 16) (int (length ''ACGTACGTACGTACGTACGT'')))
            in ([fst a, fst a, fst e, fst e, fst a],
                [snd a, snd e, snd e, snd a, snd a],
                [1::nat, 2, 3] ! (k mod length [1::nat, 2, 3])))))"
proof -
  have c: "[1::nat, 2, 3] \<noteq> []" by simp
  have p: "cigar_to_coords ''10=10=1I'' = Inr [(0, 0), (10, 10), (20, 20), (21, 20)]"
    by (simp add: eval_defs)
  have r: "plot_genasm_windows ''ACGTACGTACGTACGTACGTA'' ''ACGTACGTACGTACGTACGT'' ''10=10=1I'' [1::nat, 2, 3] 16 4 =
     Inr [([0, 0, 16, 16, 0], [0, 16, 16, 0, 0], 1), ([20, 20, 21, 21, 20], [20, 20, 20, 20, 20], 2)]"
    by (simp add: eval_defs)
  from c p r window_rectangles_clipped [OF c p] show ?thesis by (intro conjI)
qed

text \<open>
  Claim C9. For every finite path and all integers \<open>W\<close> and \<open>O\<close>, also when \<open>W \<le> O\<close>,
  the anchor computation returns (it makes one pass over the path and raises nothing),
  its result begins with \<open>(0, 0)\<close> and has at most one anchor per vertex besides. With
  \<open>W = 4\<close> and \<open>O = 16\<close> every vertex of \<open>[(0, 0), (10, 10), (20, 20)]\<close> becomes an anchor.
\<close>

theorem window_anchors_terminate:
  "(\<exists>anchors. window_starts_of path W O' = Inr anchors \<and> anchors \<noteq> [] \<and>
      anchors ! 0 = (0, 0) \<and> length anchors \<le> length path + 1) \<and>
   window_starts_of [(0, 0), (10, 10), (20, 20)] 4 16 = Inr [(0, 0), (0, 0), (10, 10), (20, 20)]"
proof -
  obtain anchors where a: "window_starts_of path W O' = Inr anchors" "anchors \<noteq> []"
      "hd anchors = (0, 0)" "length anchors \<le> length path + 1"
    using window_starts_of_total [of path W O'] by blast
  have "anchors ! 0 = (0, 0)"
    using a(2,3) by (simp add: hd_conv_nth)
  with a(1,2,4) have total: "\<exists>anchors. window_starts_of path W O' = Inr anchors \<and> anchors \<noteq> [] \<and>
      anchors ! 0 = (0, 0) \<and> length anchors \<le> length path + 1"
    by (intro exI [of _ anchors] conjI)
  have "window_starts_of [(0, 0), (10, 10), (20, 20)] 4 16 = Inr [(0, 0), (0, 0), (10, 10), (20, 20)]"
    by (simp add: window_starts_of_def)
  with total show ?thesis by (intro conjI)
qed

end
